theory Spec2Isabelle
  imports Main
begin

section \<open>The GCE metadata processor (plugins/processors/gce/gce.go)\<close>

text \<open>
  The processor attaches metadata of a GCE instance to metrics as tags. This theory embeds
  \<^verbatim>\<open>gce.go\<close> function by function. Go's \<^verbatim>\<open>error\<close> results are values, a panic is
  the left branch of a sum, and a method with a pointer receiver returns the receiver's new
  state next to its result.
\<close>

subsection \<open>Errors and panics\<close>

text \<open>A Go \<^verbatim>\<open>error\<close> is identified with its message.\<close>

datatype error = Error string

text \<open>
  The values a panic can carry here: the error handed to \<^verbatim>\<open>panic(err)\<close>, the run-time
  error of an index out of range (index and length), and a call through a nil pointer.
\<close>

datatype panic =
    PanicError error
  | IndexOutOfRange nat nat
  | NilPointerDereference

subsection \<open>The standard library's string functions\<close>

text \<open>
  \<^verbatim>\<open>strings.Split(s, sep)\<close> for a separator of one byte (the source only splits at
  \<^verbatim>\<open>"/"\<close>): the segments between the separators, so one more segment than there are
  separators, and \<^verbatim>\<open>[""]\<close> for the empty string.
\<close>

fun strings_Split :: "string \<Rightarrow> char \<Rightarrow> string list" where
  "strings_Split [] sep = [[]]"
| "strings_Split (c # cs) sep =
     (if c = sep then [] # strings_Split cs sep
      else (case strings_Split cs sep of
              [] \<Rightarrow> [[c]]
            | seg # segs \<Rightarrow> (c # seg) # segs))"

text \<open>\<^verbatim>\<open>strings.Join(elems, sep)\<close>.\<close>

fun strings_Join :: "string list \<Rightarrow> string \<Rightarrow> string" where
  "strings_Join [] sep = []"
| "strings_Join [e] sep = e"
| "strings_Join (e # es) sep = e @ sep @ strings_Join es sep"

text \<open>Indexing a slice: Go panics when the index is not below the length.\<close>

definition index_slice :: "'a list \<Rightarrow> nat \<Rightarrow> panic + 'a" where
  "index_slice xs i =
     (if i < length xs then Inr (xs ! i) else Inl (IndexOutOfRange i (length xs)))"

subsection \<open>The external collaborators\<close>

text \<open>
  The metadata client (\<^verbatim>\<open>cloud.google.com/go/compute/metadata\<close>) is outside the repository.
  The processor calls four of its methods, each without arguments and each returning a value
  or an error; a client is modelled as the answers it gives.
\<close>

record metadata_Client =
  Zone :: "error + string"
  InstanceTags :: "error + string list"
  InstanceName :: "error + string"
  Hostname :: "error + string"

text \<open>
  Modelled from the spec: the interface \<^verbatim>\<open>telegraf.Metric\<close> and its method
  \<^verbatim>\<open>AddTag\<close> are declared outside \<^verbatim>\<open>src/\<close>. The spec's work item is a record that is
  immutable except for what the enrichment function adds to it. Here a metric has a name,
  tags, fields and a time, and \<^verbatim>\<open>AddTag(key, value)\<close> sets the tag \<open>key\<close> to
  \<open>value\<close>, also when the key is already there. The type of field values is left open.
\<close>

record 'f Metric =
  metric_name :: string
  metric_tags :: "string \<rightharpoonup> string"
  metric_fields :: "string \<rightharpoonup> 'f"
  metric_time :: int

definition AddTag :: "string \<Rightarrow> string \<Rightarrow> 'f Metric \<Rightarrow> 'f Metric" where
  "AddTag key val metric = metric\<lparr>metric_tags := (metric_tags metric)(key \<mapsto> val)\<rparr>"

subsection \<open>The dispatcher (plugins/common/parallel)\<close>

text \<open>
  Modelled from the spec: the package \<^verbatim>\<open>plugins/common/parallel\<close> (\<^verbatim>\<open>NewOrdered\<close>,
  \<^verbatim>\<open>NewUnordered\<close>, \<^verbatim>\<open>Enqueue\<close>, \<^verbatim>\<open>Stop\<close>) is not under \<^verbatim>\<open>src/\<close>. The
  definitions of this subsection follow sections 3 to 5 of the specification. A dispatcher
  gives every enqueued item the next sequence number; an item waits for a free worker slot,
  is in flight while its enrichment call runs, and completes. In unordered mode the results
  of a completed call go to the sink at once. In ordered mode they are stored in the reorder
  buffer, and the release step emits the entry of the cursor \<^verbatim>\<open>nextToRelease\<close> and advances
  the cursor for as long as the buffer holds that entry.

  Concurrency is modelled by interleaving: a schedule is a list of events, and the latency of a
  call is the position of its completion event in the schedule. An event that is not enabled
  (a worker slot that is not free, a full reorder buffer, a sequence number that is not in
  flight) yields \<open>None\<close>.
\<close>

datatype mode = OrderedMode | UnorderedMode

text \<open>
  Modelled from the spec: the state of a dispatcher. \<^verbatim>\<open>pending\<close> holds the enqueued
  items that wait for a slot, \<^verbatim>\<open>inflight\<close> the items whose enrichment call runs, each
  with its sequence number; \<^verbatim>\<open>buffer\<close> is the reorder buffer, from sequence number to
  completed output; \<^verbatim>\<open>sink\<close> is what the sink has received.
\<close>

record 'a Parallel =
  mode :: mode
  concurrencyLimit :: int
  maxQueueSize :: int
  nextSeq :: nat
  pending :: "(nat \<times> 'a) list"
  inflight :: "(nat \<times> 'a) list"
  buffer :: "(nat \<times> 'a list) list"
  nextToRelease :: nat
  sink :: "'a list"
  stopped :: bool

text \<open>
  Modelled from the spec: the constructors take the accumulator (the sink), the worker count
  and, in ordered mode, the size of the reorder buffer. The enrichment function, their
  second argument in the source, is passed to the steps instead.
\<close>

definition NewOrdered :: "'a list \<Rightarrow> int \<Rightarrow> int \<Rightarrow> 'a Parallel" where
  "NewOrdered acc orderedQueueSize workerCount =
     \<lparr>mode = OrderedMode, concurrencyLimit = workerCount, maxQueueSize = orderedQueueSize,
      nextSeq = 0, pending = [], inflight = [], buffer = [], nextToRelease = 0,
      sink = acc, stopped = False\<rparr>"

definition NewUnordered :: "'a list \<Rightarrow> int \<Rightarrow> 'a Parallel" where
  "NewUnordered acc workerCount =
     \<lparr>mode = UnorderedMode, concurrencyLimit = workerCount, maxQueueSize = 0,
      nextSeq = 0, pending = [], inflight = [], buffer = [], nextToRelease = 0,
      sink = acc, stopped = False\<rparr>"

text \<open>
  Modelled from the spec: \<^verbatim>\<open>Enqueue\<close> gives the item the next sequence number. A
  stopped dispatcher takes no item, and in ordered mode a reorder buffer that has reached
  \<^verbatim>\<open>maxQueueSize\<close> holds the caller back.
\<close>

definition Enqueue :: "'a \<Rightarrow> 'a Parallel \<Rightarrow> 'a Parallel option" where
  "Enqueue item d =
     (if stopped d then None
      else if mode d = OrderedMode \<and> maxQueueSize d \<le> int (length (buffer d)) then None
      else Some (d\<lparr>pending := pending d @ [(nextSeq d, item)], nextSeq := Suc (nextSeq d)\<rparr>))"

text \<open>
  Modelled from the spec: a free worker slot takes the oldest waiting item; at most
  \<^verbatim>\<open>concurrencyLimit\<close> enrichment calls run at the same time.
\<close>

definition dispatch :: "'a Parallel \<Rightarrow> 'a Parallel option" where
  "dispatch d =
     (case pending d of
        [] \<Rightarrow> None
      | job # jobs \<Rightarrow>
          if int (length (inflight d)) < concurrencyLimit d
          then Some (d\<lparr>pending := jobs, inflight := inflight d @ [job]\<rparr>)
          else None)"

text \<open>
  Modelled from the spec: the release step of the ordered dispatcher. While the buffer holds
  the entry of \<^verbatim>\<open>nextToRelease\<close>, the step removes the entry, emits it to the sink and
  increments the cursor.
\<close>

function release :: "'a Parallel \<Rightarrow> 'a Parallel" where
  "release d =
     (case map_of (buffer d) (nextToRelease d) of
        None \<Rightarrow> d
      | Some out \<Rightarrow>
          release (d\<lparr>sink := sink d @ out,
                     buffer := filter (\<lambda>entry. fst entry \<noteq> nextToRelease d) (buffer d),
                     nextToRelease := Suc (nextToRelease d)\<rparr>))"
  by pat_completeness auto
termination
proof (relation "measure (\<lambda>d. length (buffer d))")
  show "wf (measure (\<lambda>d. length (buffer d)))"
    by simp
next
  fix d :: "'a Parallel" and out
  assume "map_of (buffer d) (nextToRelease d) = Some out"
  then have "(nextToRelease d, out) \<in> set (buffer d)"
    by (rule map_of_SomeD)
  then have "length (filter (\<lambda>entry. fst entry \<noteq> nextToRelease d) (buffer d))
               < length (buffer d)"
    by (rule length_filter_less) simp
  then show "(d\<lparr>sink := sink d @ out,
                buffer := filter (\<lambda>entry. fst entry \<noteq> nextToRelease d) (buffer d),
                nextToRelease := Suc (nextToRelease d)\<rparr>, d)
             \<in> measure (\<lambda>d. length (buffer d))"
    by simp
qed

declare release.simps [simp del]

text \<open>
  Modelled from the spec: the enrichment call of the in-flight item with sequence number
  \<open>s\<close> returns. Its slot is free again, and its results are emitted (unordered mode) or
  stored in the reorder buffer and released in order (ordered mode).
\<close>

definition complete :: "('a \<Rightarrow> 'a list) \<Rightarrow> nat \<Rightarrow> 'a Parallel \<Rightarrow> 'a Parallel option" where
  "complete enrichFn s d =
     (case map_of (inflight d) s of
        None \<Rightarrow> None
      | Some item \<Rightarrow>
          let d' = d\<lparr>inflight := filter (\<lambda>job. fst job \<noteq> s) (inflight d)\<rparr>
          in (case mode d of
                UnorderedMode \<Rightarrow> Some (d'\<lparr>sink := sink d' @ enrichFn item\<rparr>)
              | OrderedMode \<Rightarrow>
                  Some (release (d'\<lparr>buffer := buffer d' @ [(s, enrichFn item)]\<rparr>))))"

text \<open>
  Modelled from the spec: \<^verbatim>\<open>Stop\<close> signals that no further item will be enqueued. Its
  wait for the work in flight is the rest of the schedule; \<open>drained\<close> is the state in
  which the wait is over.
\<close>

definition parallel_Stop :: "'a Parallel \<Rightarrow> 'a Parallel" where
  "parallel_Stop d = d\<lparr>stopped := True\<rparr>"

definition drained :: "'a Parallel \<Rightarrow> bool" where
  "drained d \<longleftrightarrow> pending d = [] \<and> inflight d = [] \<and> buffer d = []"

text \<open>
  Modelled from the spec: the events of a schedule, one step for each, and the run of a
  schedule from a state.
\<close>

datatype 'a event = EvEnqueue 'a | EvDispatch | EvComplete nat | EvStop

fun step :: "('a \<Rightarrow> 'a list) \<Rightarrow> 'a event \<Rightarrow> 'a Parallel \<Rightarrow> 'a Parallel option" where
  "step enrichFn (EvEnqueue item) d = Enqueue item d"
| "step enrichFn EvDispatch d = dispatch d"
| "step enrichFn (EvComplete s) d = complete enrichFn s d"
| "step enrichFn EvStop d = Some (parallel_Stop d)"

fun run :: "('a \<Rightarrow> 'a list) \<Rightarrow> 'a event list \<Rightarrow> 'a Parallel \<Rightarrow> 'a Parallel option" where
  "run enrichFn [] d = Some d"
| "run enrichFn (e # es) d =
     (case step enrichFn e d of None \<Rightarrow> None | Some d' \<Rightarrow> run enrichFn es d')"

text \<open>The items of a schedule, in the order they are enqueued.\<close>

fun enqueued :: "'a event list \<Rightarrow> 'a list" where
  "enqueued [] = []"
| "enqueued (EvEnqueue item # es) = item # enqueued es"
| "enqueued (e # es) = enqueued es"

text \<open>
  The invariant of the ordered dispatcher, for the items enqueued so far: the sink holds the
  results of the items below the cursor, in order; every waiting, running and buffered entry
  belongs to the item of its sequence number; and every sequence number from the cursor on is
  waiting, running or buffered.
\<close>

definition ordered_inv :: "('a \<Rightarrow> 'a list) \<Rightarrow> 'a list \<Rightarrow> 'a list \<Rightarrow> 'a Parallel \<Rightarrow> bool" where
  "ordered_inv enrichFn acc items d \<longleftrightarrow>
     mode d = OrderedMode \<and>
     nextSeq d = length items \<and>
     nextToRelease d \<le> nextSeq d \<and>
     sink d = acc @ concat (map enrichFn (take (nextToRelease d) items)) \<and>
     (\<forall>job \<in> set (pending d). fst job < length items \<and> snd job = items ! fst job) \<and>
     (\<forall>job \<in> set (inflight d). fst job < length items \<and> snd job = items ! fst job) \<and>
     (\<forall>entry \<in> set (buffer d).
         fst entry < length items \<and> snd entry = enrichFn (items ! fst entry)) \<and>
     (\<forall>s. nextToRelease d \<le> s \<and> s < nextSeq d \<longrightarrow>
         s \<in> fst ` set (pending d) \<union> fst ` set (inflight d) \<union> fst ` set (buffer d))"

subsection \<open>The processor\<close>

text \<open>
  The struct \<^verbatim>\<open>GceProcessor\<close>. \<^verbatim>\<open>allowTagsMap\<close> has the type \<^verbatim>\<open>map[string]struct{}\<close>,
  Go's idiom for a set of strings; \<^verbatim>\<open>newGceProcessor\<close>, the only constructor, allocates
  it. \<^verbatim>\<open>gceClient\<close> and \<^verbatim>\<open>parallel\<close> are nil until \<^verbatim>\<open>Start\<close> sets them. The logger
  \<^verbatim>\<open>Log\<close> is set by the host before \<^verbatim>\<open>Init\<close>; its output and the \<^verbatim>\<open>fmt.Println\<close> of
  \<^verbatim>\<open>asyncAdd\<close> are not part of the model.
\<close>

record 'f GceProcessor =
  AllowTags :: "string list"
  Timeout :: int
  Ordered :: bool
  MaxParallelCalls :: int
  gceClient :: "metadata_Client option"
  allowTagsMap :: "string set"
  parallel :: "'f Metric Parallel option"
  instanceID :: string

definition DefaultMaxOrderedQueueSize :: int where
  "DefaultMaxOrderedQueueSize = 10000"

definition DefaultMaxParallelCalls :: int where
  "DefaultMaxParallelCalls = 10"

text \<open>\<^verbatim>\<open>10 * time.Second\<close>, in nanoseconds.\<close>

definition DefaultTimeout :: int where
  "DefaultTimeout = 10 * 1000000000"

definition permittedTags :: "string set" where
  "permittedTags = {''zone'', ''tags'', ''name'', ''hostname''}"

definition isTagPermitted :: "string \<Rightarrow> bool" where
  "isTagPermitted tag \<longleftrightarrow> tag \<in> permittedTags"

definition newGceProcessor :: "'f GceProcessor" where
  "newGceProcessor =
     \<lparr>AllowTags = [], Timeout = DefaultTimeout, Ordered = False,
      MaxParallelCalls = DefaultMaxParallelCalls, gceClient = None, allowTagsMap = {},
      parallel = None, instanceID = []\<rparr>"

text \<open>
  \<^verbatim>\<open>Init\<close>: the loop over \<^verbatim>\<open>r.AllowTags\<close>. It returns at the first tag that is empty or
  not permitted, with the tags before it already stored in \<^verbatim>\<open>allowTagsMap\<close>.
\<close>

fun Init_loop :: "string list \<Rightarrow> 'f GceProcessor \<Rightarrow> error option \<times> 'f GceProcessor" where
  "Init_loop [] r = (None, r)"
| "Init_loop (tag # rest) r =
     (if length tag = 0 \<or> \<not> isTagPermitted tag
      then (Some (Error (''un-permitted metadata tag specified in configuration: '' @ tag)), r)
      else Init_loop rest (r\<lparr>allowTagsMap := insert tag (allowTagsMap r)\<rparr>))"

definition Init :: "'f GceProcessor \<Rightarrow> error option \<times> 'f GceProcessor" where
  "Init r = Init_loop (AllowTags r) r"

text \<open>
  \<^verbatim>\<open>Start\<close>: \<open>client\<close> is the result of \<^verbatim>\<open>metadata.NewClient(nil)\<close> and \<open>acc\<close> the
  accumulator, the metrics the sink holds. The enrichment function handed to the dispatcher
  is \<^verbatim>\<open>r.asyncAdd\<close>; the model passes it to the dispatcher's steps.
\<close>

definition Start ::
  "metadata_Client \<Rightarrow> 'f Metric list \<Rightarrow> 'f GceProcessor \<Rightarrow> error option \<times> 'f GceProcessor"
where
  "Start client acc r =
     (let r1 = r\<lparr>gceClient := Some client\<rparr>;
          r2 = (if Ordered r1
                then r1\<lparr>parallel :=
                       Some (NewOrdered acc DefaultMaxOrderedQueueSize (MaxParallelCalls r1))\<rparr>
                else r1\<lparr>parallel := Some (NewUnordered acc (MaxParallelCalls r1))\<rparr>)
      in (None, r2))"

definition Stop :: "'f GceProcessor \<Rightarrow> error option \<times> 'f GceProcessor" where
  "Stop r =
     (case parallel r of
        None \<Rightarrow> (Some (Error ''trying to stop unstarted GCE Processor''), r)
      | Some p \<Rightarrow> (None, r\<lparr>parallel := Some (parallel_Stop p)\<rparr>))"

text \<open>
  \<^verbatim>\<open>getTagFromGCE\<close>: the switch over the tag. A result is the pair the function returns
  or the panic that ends it: the index \<^verbatim>\<open>[3]\<close> into the split zone is not guarded. A call
  through a nil client is taken to panic.
\<close>

definition getTagFromGCE :: "'f GceProcessor \<Rightarrow> string \<Rightarrow> panic + (string \<times> error option)" where
  "getTagFromGCE r tag =
     (if tag = ''zone'' then
        (case gceClient r of
           None \<Rightarrow> Inl NilPointerDereference
         | Some client \<Rightarrow>
             (case Zone client of
                Inl err \<Rightarrow> Inr ([], Some err)
              | Inr zone \<Rightarrow>
                  (case index_slice (strings_Split zone CHR ''/'') 3 of
                     Inl p \<Rightarrow> Inl p
                   | Inr segment \<Rightarrow> Inr (segment, None))))
      else if tag = ''tags'' then
        (case gceClient r of
           None \<Rightarrow> Inl NilPointerDereference
         | Some client \<Rightarrow>
             (case InstanceTags client of
                Inl err \<Rightarrow> Inr ([], Some err)
              | Inr instance_tags \<Rightarrow> Inr (strings_Join instance_tags '','', None)))
      else if tag = ''name'' then
        (case gceClient r of
           None \<Rightarrow> Inl NilPointerDereference
         | Some client \<Rightarrow>
             (case InstanceName client of
                Inl err \<Rightarrow> Inr ([], Some err)
              | Inr name \<Rightarrow> Inr (name, None)))
      else if tag = ''hostname'' then
        (case gceClient r of
           None \<Rightarrow> Inl NilPointerDereference
         | Some client \<Rightarrow>
             (case Hostname client of
                Inl err \<Rightarrow> Inr ([], Some err)
              | Inr hostname \<Rightarrow> Inr (hostname, None)))
      else Inr ([], None))"

text \<open>
  \<^verbatim>\<open>context.WithTimeout(context.Background(), d)\<close>: the context carries the deadline.
  \<^verbatim>\<open>asyncAdd\<close> binds it to the blank identifier.
\<close>

datatype deadline_ctx = WithTimeout int

text \<open>
  The \<^verbatim>\<open>range\<close> loop of \<^verbatim>\<open>asyncAdd\<close> over the keys \<open>ks\<close> of \<^verbatim>\<open>allowTagsMap\<close>. The
  metric is a mutable object, so the loop returns its state also when a panic ends the loop.
\<close>

fun asyncAdd_range ::
  "'f GceProcessor \<Rightarrow> string list \<Rightarrow> 'f Metric \<Rightarrow> 'f Metric \<times> panic option"
where
  "asyncAdd_range r [] metric = (metric, None)"
| "asyncAdd_range r (tag # rest) metric =
     (case getTagFromGCE r tag of
        Inl p \<Rightarrow> (metric, Some p)
      | Inr (val, Some err) \<Rightarrow> (metric, Some (PanicError err))
      | Inr (val, None) \<Rightarrow> asyncAdd_range r rest (AddTag tag val metric))"

text \<open>
  Go ranges over a map in an order that is not specified: \<open>ks\<close> is the order of this call,
  any list that holds every key of the map once.
\<close>

definition range_order :: "string set \<Rightarrow> string list \<Rightarrow> bool" where
  "range_order m ks \<longleftrightarrow> distinct ks \<and> set ks = m"

text \<open>
  \<^verbatim>\<open>asyncAdd\<close>: the first component is the metric after the call, the second the slice
  the call returns or the panic that ends it.
\<close>

definition asyncAdd ::
  "'f GceProcessor \<Rightarrow> string list \<Rightarrow> 'f Metric \<Rightarrow> 'f Metric \<times> (panic + 'f Metric list)"
where
  "asyncAdd r ks metric =
     (let ctx = WithTimeout (Timeout r);
          (metric', p) = (if 0 < card (allowTagsMap r)
                          then asyncAdd_range r ks metric
                          else (metric, None))
      in (case p of
            Some v \<Rightarrow> (metric', Inl v)
          | None \<Rightarrow> (metric', Inr [metric'])))"

text \<open>
  \<^verbatim>\<open>Add\<close> hands the metric to the dispatcher and returns nil; a call on a nil dispatcher
  panics. The result is \<open>Inr None\<close> while the dispatcher holds the caller back.
\<close>

definition Add ::
  "'f Metric \<Rightarrow> 'f GceProcessor \<Rightarrow> panic + (error option \<times> 'f GceProcessor) option"
where
  "Add metric r =
     (case parallel r of
        None \<Rightarrow> Inl NilPointerDereference
      | Some p \<Rightarrow>
          Inr (case Enqueue metric p of
                 None \<Rightarrow> None
               | Some p' \<Rightarrow> Some (None, r\<lparr>parallel := Some p'\<rparr>)))"

text \<open>
  The value a lookup contributes to the metric: defined when \<^verbatim>\<open>getTagFromGCE\<close> returns
  without a panic and without an error.
\<close>

definition lookup_value :: "'f GceProcessor \<Rightarrow> string \<Rightarrow> string option" where
  "lookup_value r tag = (case getTagFromGCE r tag of Inr (val, None) \<Rightarrow> Some val | _ \<Rightarrow> None)"

subsection \<open>Example values\<close>

definition demo_client :: metadata_Client where
  "demo_client =
     \<lparr>Zone = Inr ''projects/123/zones/us-central1-a'',
      InstanceTags = Inr [''web'', ''prod''],
      InstanceName = Inr ''vm-1'',
      Hostname = Inr ''vm-1.c.demo.internal''\<rparr>"

definition demo_metric :: "unit Metric" where
  "demo_metric =
     \<lparr>metric_name = ''cpu'', metric_tags = [''host'' \<mapsto> ''a''],
      metric_fields = [''usage'' \<mapsto> ()], metric_time = 0\<rparr>"

definition demo_processor :: "string set \<Rightarrow> metadata_Client \<Rightarrow> unit GceProcessor" where
  "demo_processor allow client = newGceProcessor\<lparr>gceClient := Some client, allowTagsMap := allow\<rparr>"

definition demo_items :: "unit Metric list" where
  "demo_items =
     [demo_metric\<lparr>metric_name := ''A''\<rparr>, demo_metric\<lparr>metric_name := ''B''\<rparr>,
      demo_metric\<lparr>metric_name := ''C''\<rparr>]"

definition demo_schedule :: "unit Metric event list" where
  "demo_schedule =
     map EvEnqueue demo_items @
     [EvDispatch, EvDispatch, EvDispatch, EvComplete 2, EvComplete 1, EvComplete 0, EvStop]"

definition demo_enrich :: "unit Metric \<Rightarrow> unit Metric list" where
  "demo_enrich metric = [AddTag ''name'' ''vm-1'' metric]"

section \<open>Properties\<close>

subsection \<open>Initialisation\<close>

lemma Init_loop_error:
  "fst (Init_loop ts r) =
     map_option (\<lambda>tag. Error (''un-permitted metadata tag specified in configuration: '' @ tag))
       (find (\<lambda>tag. length tag = 0 \<or> \<not> isTagPermitted tag) ts)"
  by (induction ts arbitrary: r) simp_all

lemma Init_loop_frame:
  "AllowTags (snd (Init_loop ts r)) = AllowTags r"
  "Timeout (snd (Init_loop ts r)) = Timeout r"
  "Ordered (snd (Init_loop ts r)) = Ordered r"
  "MaxParallelCalls (snd (Init_loop ts r)) = MaxParallelCalls r"
  "gceClient (snd (Init_loop ts r)) = gceClient r"
  "parallel (snd (Init_loop ts r)) = parallel r"
  "instanceID (snd (Init_loop ts r)) = instanceID r"
  "GceProcessor.more (snd (Init_loop ts r)) = GceProcessor.more r"
  by (induction ts arbitrary: r) simp_all

lemma Init_loop_allowTagsMap:
  "allowTagsMap (snd (Init_loop ts r)) =
     set (takeWhile (\<lambda>tag. \<not> (length tag = 0 \<or> \<not> isTagPermitted tag)) ts) \<union> allowTagsMap r"
  by (induction ts arbitrary: r) auto

lemma Init_loop_ok:
  "fst (Init_loop ts r) = None \<longleftrightarrow> (\<forall>tag \<in> set ts. tag \<noteq> [] \<and> isTagPermitted tag)"
  by (auto simp add: Init_loop_error find_None_iff)

lemma Init_loop_ok_map:
  assumes "fst (Init_loop ts r) = None"
  shows "allowTagsMap (snd (Init_loop ts r)) = set ts \<union> allowTagsMap r"
proof -
  from assms have "\<forall>tag \<in> set ts. \<not> (length tag = 0 \<or> \<not> isTagPermitted tag)"
    by (simp add: Init_loop_ok)
  then have "takeWhile (\<lambda>tag. \<not> (length tag = 0 \<or> \<not> isTagPermitted tag)) ts = ts"
    by (simp only: takeWhile_eq_all_conv)
  then show ?thesis
    by (simp only: Init_loop_allowTagsMap)
qed

text \<open>
  C4. On a processor whose allow-set is still empty, as \<^verbatim>\<open>newGceProcessor\<close> makes it,
  \<^verbatim>\<open>Init\<close> returns an error if and only if some entry of \<^verbatim>\<open>AllowTags\<close> is empty or is
  not one of zone, tags, name and hostname. When it returns no error, the processor differs
  from the one it was given only in its allow-set, which is exactly the set of the configured
  names. In both cases the dispatcher field is as before: no dispatch has started.
\<close>

theorem Init_error_iff:
  "allowTagsMap r = {} \<Longrightarrow>
     (fst (Init r) \<noteq> None \<longleftrightarrow>
        (\<exists>tag \<in> set (AllowTags r).
            tag = [] \<or> tag \<notin> {''zone'', ''tags'', ''name'', ''hostname''})) \<and>
     (fst (Init r) = None \<longrightarrow> snd (Init r) = r\<lparr>allowTagsMap := set (AllowTags r)\<rparr>) \<and>
     parallel (snd (Init r)) = parallel r"
proof (intro conjI impI)
  show "fst (Init r) \<noteq> None \<longleftrightarrow>
        (\<exists>tag \<in> set (AllowTags r).
            tag = [] \<or> tag \<notin> {''zone'', ''tags'', ''name'', ''hostname''})"
    by (simp add: Init_def Init_loop_ok isTagPermitted_def permittedTags_def)
next
  assume empty: "allowTagsMap r = {}" and ok: "fst (Init r) = None"
  from ok have "allowTagsMap (snd (Init r)) = set (AllowTags r) \<union> allowTagsMap r"
    unfolding Init_def by (rule Init_loop_ok_map)
  with empty have "allowTagsMap (snd (Init r)) = set (AllowTags r)"
    by simp
  then show "snd (Init r) = r\<lparr>allowTagsMap := set (AllowTags r)\<rparr>"
    by (intro GceProcessor.equality) (simp_all add: Init_def Init_loop_frame)
next
  show "parallel (snd (Init r)) = parallel r"
    by (simp add: Init_def Init_loop_frame)
qed

theorem Init_error_iff_witness:
  "allowTagsMap (newGceProcessor\<lparr>AllowTags := [''zone'', ''name'']\<rparr> :: unit GceProcessor) = {} \<and>
   Init (newGceProcessor\<lparr>AllowTags := [''zone'', ''name'']\<rparr> :: unit GceProcessor) =
     (None, newGceProcessor\<lparr>AllowTags := [''zone'', ''name''],
                             allowTagsMap := {''zone'', ''name''}\<rparr>) \<and>
   fst (Init (newGceProcessor\<lparr>AllowTags := [''zone'', ''region'', ''name'']\<rparr>
              :: unit GceProcessor)) \<noteq> None"
  using
    Init_error_iff [of "newGceProcessor\<lparr>AllowTags := [''zone'', ''name'']\<rparr> :: unit GceProcessor"]
    Init_error_iff [of "newGceProcessor\<lparr>AllowTags := [''zone'', ''region'', ''name'']\<rparr>
                        :: unit GceProcessor"]
  by (simp add: newGceProcessor_def prod_eq_iff)

subsection \<open>The lookup function\<close>

lemma length_strings_Split: "length (strings_Split s sep) = Suc (count_list s sep)"
  by (induction s) (auto split: list.splits)

text \<open>
  C6. For every tag that is none of zone, tags, name and hostname, \<^verbatim>\<open>getTagFromGCE\<close>
  returns the empty string and no error, whatever the state of the processor and its client.
\<close>

theorem getTagFromGCE_unknown_tag:
  "tag \<notin> {''zone'', ''tags'', ''name'', ''hostname''} \<Longrightarrow> getTagFromGCE r tag = Inr ([], None)"
  by (simp add: getTagFromGCE_def)

theorem getTagFromGCE_unknown_tag_witness:
  "''region'' \<notin> {''zone'', ''tags'', ''name'', ''hostname''} \<and>
   getTagFromGCE (newGceProcessor :: unit GceProcessor) ''region'' = Inr ([], None)"
  using getTagFromGCE_unknown_tag [of "''region''" "newGceProcessor :: unit GceProcessor"]
  by simp

text \<open>
  C9. When the client answers the zone call with a string, the zone lookup returns (the
  fourth segment, no error) if the string has at least four segments between slashes, and
  panics with an index out of range at every string with fewer. The number of segments is
  the number of slashes plus one.
\<close>

theorem zone_lookup_total_iff:
  "gceClient r = Some client \<Longrightarrow> Zone client = Inr zone \<Longrightarrow>
     length (strings_Split zone CHR ''/'') = Suc (count_list zone CHR ''/'') \<and>
     (4 \<le> length (strings_Split zone CHR ''/'') \<longrightarrow>
        getTagFromGCE r ''zone'' = Inr (strings_Split zone CHR ''/'' ! 3, None)) \<and>
     (length (strings_Split zone CHR ''/'') < 4 \<longrightarrow>
        getTagFromGCE r ''zone'' =
          Inl (IndexOutOfRange 3 (length (strings_Split zone CHR ''/''))))"
  by (simp add: getTagFromGCE_def index_slice_def length_strings_Split)

theorem zone_lookup_total_iff_witness:
  "getTagFromGCE (demo_processor {} demo_client) ''zone'' = Inr (''us-central1-a'', None) \<and>
   getTagFromGCE (demo_processor {} (demo_client\<lparr>Zone := Inr ''zones/us-central1-a''\<rparr>)) ''zone''
     = Inl (IndexOutOfRange 3 2)"
  using
    zone_lookup_total_iff [of "demo_processor {} demo_client" demo_client
      "''projects/123/zones/us-central1-a''"]
    zone_lookup_total_iff
      [of "demo_processor {} (demo_client\<lparr>Zone := Inr ''zones/us-central1-a''\<rparr>)"
          "demo_client\<lparr>Zone := Inr ''zones/us-central1-a''\<rparr>" "''zones/us-central1-a''"]
  by (simp add: demo_client_def demo_processor_def)

text \<open>
  C7. The claim holds for tags, name and hostname and fails for zone. The client answers the
  zone call with the zone name, ''us-central1-a'': the split has one segment, and the index
  \<^verbatim>\<open>[3]\<close> panics instead of returning the zone. With the same client the lookups of
  tags, name and hostname return their values with no error.
\<close>

theorem getTagFromGCE_zone_short_path:
  "getTagFromGCE (demo_processor {} (demo_client\<lparr>Zone := Inr ''us-central1-a''\<rparr>)) ''zone''
     = Inl (IndexOutOfRange 3 1) \<and>
   getTagFromGCE (demo_processor {} (demo_client\<lparr>Zone := Inr ''us-central1-a''\<rparr>)) ''tags''
     = Inr (''web,prod'', None) \<and>
   getTagFromGCE (demo_processor {} (demo_client\<lparr>Zone := Inr ''us-central1-a''\<rparr>)) ''name''
     = Inr (''vm-1'', None) \<and>
   getTagFromGCE (demo_processor {} (demo_client\<lparr>Zone := Inr ''us-central1-a''\<rparr>)) ''hostname''
     = Inr (''vm-1.c.demo.internal'', None)"
  by (simp add: getTagFromGCE_def index_slice_def demo_processor_def demo_client_def)

subsection \<open>Stopping\<close>

text \<open>
  C5. \<^verbatim>\<open>Stop\<close> on a processor whose dispatcher is nil, as it is until \<^verbatim>\<open>Start\<close>,
  returns the error "trying to stop unstarted GCE Processor" and leaves the processor as it
  is. \<^verbatim>\<open>Stop\<close> on a processor that has a dispatcher calls the dispatcher's \<^verbatim>\<open>Stop\<close>
  and returns no error. \<^verbatim>\<open>Start\<close> returns no error and sets a dispatcher, so
  \<^verbatim>\<open>Stop\<close> after \<^verbatim>\<open>Start\<close> is of the second kind.
\<close>

theorem Stop_unstarted_error:
  "(parallel r = None \<longrightarrow>
      Stop r = (Some (Error ''trying to stop unstarted GCE Processor''), r)) \<and>
   (\<forall>p. parallel r = Some p \<longrightarrow>
      Stop r = (None, r\<lparr>parallel := Some (parallel_Stop p)\<rparr>)) \<and>
   fst (Start client acc r) = None \<and>
   (\<exists>p. parallel (snd (Start client acc r)) = Some p \<and>
        Stop (snd (Start client acc r)) =
          (None, (snd (Start client acc r))\<lparr>parallel := Some (parallel_Stop p)\<rparr>))"
  by (simp add: Stop_def Start_def Let_def)

theorem Stop_unstarted_error_witness:
  "parallel (newGceProcessor :: unit GceProcessor) = None \<and>
   Stop (newGceProcessor :: unit GceProcessor) =
     (Some (Error ''trying to stop unstarted GCE Processor''), newGceProcessor) \<and>
   parallel (snd (Start demo_client [] (newGceProcessor :: unit GceProcessor))) =
     Some (NewUnordered [] 10) \<and>
   Stop (snd (Start demo_client [] (newGceProcessor :: unit GceProcessor))) =
     (None, newGceProcessor\<lparr>gceClient := Some demo_client,
                             parallel := Some ((NewUnordered [] 10)\<lparr>stopped := True\<rparr>)\<rparr>)"
  using Stop_unstarted_error [of "newGceProcessor :: unit GceProcessor"]
    Stop_unstarted_error [of "snd (Start demo_client [] (newGceProcessor :: unit GceProcessor))"]
  by (simp add: newGceProcessor_def Start_def DefaultMaxParallelCalls_def parallel_Stop_def)

subsection \<open>The enrichment function\<close>

lemma lookup_value_Some:
  "lookup_value r tag = Some val \<longleftrightarrow> getTagFromGCE r tag = Inr (val, None)"
  by (auto simp add: lookup_value_def split: sum.splits option.splits)

lemma lookup_value_None:
  "lookup_value r tag = None \<longleftrightarrow>
     (\<exists>p. getTagFromGCE r tag = Inl p) \<or> (\<exists>val err. getTagFromGCE r tag = Inr (val, Some err))"
  by (auto simp add: lookup_value_def split: sum.splits option.splits)

lemma lookup_value_ok:
  "getTagFromGCE r tag = Inr (val, None) \<Longrightarrow> lookup_value r tag \<noteq> None"
  by (simp add: lookup_value_def)

lemma lookup_value_err:
  "getTagFromGCE r tag = Inr (val, Some err) \<Longrightarrow> lookup_value r tag = None"
  by (simp add: lookup_value_def)

lemma getTagFromGCE_lookup_error:
  "gceClient r = Some client \<Longrightarrow> Zone client = Inl err \<Longrightarrow>
     getTagFromGCE r ''zone'' = Inr ([], Some err)"
  "gceClient r = Some client \<Longrightarrow> InstanceTags client = Inl err \<Longrightarrow>
     getTagFromGCE r ''tags'' = Inr ([], Some err)"
  "gceClient r = Some client \<Longrightarrow> InstanceName client = Inl err \<Longrightarrow>
     getTagFromGCE r ''name'' = Inr ([], Some err)"
  "gceClient r = Some client \<Longrightarrow> Hostname client = Inl err \<Longrightarrow>
     getTagFromGCE r ''hostname'' = Inr ([], Some err)"
  by (simp_all add: getTagFromGCE_def)

lemma asyncAdd_range_success:
  "\<forall>tag \<in> set ks. lookup_value r tag \<noteq> None \<Longrightarrow>
     asyncAdd_range r ks metric =
       (metric\<lparr>metric_tags := (\<lambda>k. if k \<in> set ks then lookup_value r k else metric_tags metric k)\<rparr>,
        None)"
proof (induction ks arbitrary: metric)
  case Nil
  then show ?case by simp
next
  case (Cons tag rest)
  from Cons.prems obtain val where val: "getTagFromGCE r tag = Inr (val, None)"
    by (auto simp add: lookup_value_Some)
  from Cons.prems have "\<forall>tag \<in> set rest. lookup_value r tag \<noteq> None"
    by simp
  then have "asyncAdd_range r rest (AddTag tag val metric) =
      ((AddTag tag val metric)\<lparr>metric_tags :=
          (\<lambda>k. if k \<in> set rest then lookup_value r k
                else metric_tags (AddTag tag val metric) k)\<rparr>, None)"
    by (rule Cons.IH)
  moreover have "(\<lambda>k. if k \<in> set rest then lookup_value r k
                else metric_tags (AddTag tag val metric) k) =
         (\<lambda>k. if k \<in> set (tag # rest) then lookup_value r k else metric_tags metric k)"
    using val by (auto simp add: AddTag_def fun_eq_iff lookup_value_def)
  ultimately show ?case
    using val by (simp add: AddTag_def)
qed

lemma asyncAdd_range_failure:
  "\<exists>tag \<in> set ks. lookup_value r tag = None \<Longrightarrow> \<exists>p. snd (asyncAdd_range r ks metric) = Some p"
proof (induction ks arbitrary: metric)
  case Nil
  then show ?case by simp
next
  case (Cons tag rest)
  show ?case
  proof (cases "lookup_value r tag")
    case None
    then show ?thesis
      by (auto simp add: lookup_value_None)
  next
    case (Some val)
    then have val: "getTagFromGCE r tag = Inr (val, None)"
      by (simp add: lookup_value_Some)
    from Some Cons.prems have "\<exists>tag \<in> set rest. lookup_value r tag = None"
      by auto
    then have "\<exists>p. snd (asyncAdd_range r rest (AddTag tag val metric)) = Some p"
      by (rule Cons.IH)
    with val show ?thesis by simp
  qed
qed

lemma asyncAdd_range_panic:
  "snd (asyncAdd_range r ks metric) = Some p \<Longrightarrow>
     \<exists>tag \<in> set ks. getTagFromGCE r tag = Inl p \<or>
        (\<exists>val err. getTagFromGCE r tag = Inr (val, Some err) \<and> p = PanicError err)"
  by (induction ks arbitrary: metric) (auto split: sum.splits option.splits prod.splits)

lemma asyncAdd_range_first_failure:
  "\<forall>t \<in> set pre. lookup_value r t \<noteq> None \<Longrightarrow> getTagFromGCE r tag = Inr (val, Some err) \<Longrightarrow>
     snd (asyncAdd_range r (pre @ tag # post) metric) = Some (PanicError err)"
  by (induction pre arbitrary: metric) (auto simp add: lookup_value_Some)

lemma asyncAdd_range_frame:
  "metric_name (fst (asyncAdd_range r ks metric)) = metric_name metric"
  "metric_fields (fst (asyncAdd_range r ks metric)) = metric_fields metric"
  "metric_time (fst (asyncAdd_range r ks metric)) = metric_time metric"
  "Metric.more (fst (asyncAdd_range r ks metric)) = Metric.more metric"
  by (induction ks arbitrary: metric)
     (simp_all add: AddTag_def split: sum.splits option.splits prod.splits)

lemma asyncAdd_range_tags:
  "metric_tags (fst (asyncAdd_range r ks metric)) k = metric_tags metric k \<or>
   (k \<in> set ks \<and> lookup_value r k \<noteq> None \<and>
    metric_tags (fst (asyncAdd_range r ks metric)) k = lookup_value r k)"
proof (induction ks arbitrary: metric)
  case Nil
  then show ?case by simp
next
  case (Cons tag rest)
  show ?case
  proof (cases "lookup_value r tag")
    case None
    then have "fst (asyncAdd_range r (tag # rest) metric) = metric"
      by (auto simp add: lookup_value_None)
    then show ?thesis by simp
  next
    case (Some val)
    then have val: "getTagFromGCE r tag = Inr (val, None)"
      by (simp add: lookup_value_Some)
    then have eq: "asyncAdd_range r (tag # rest) metric = asyncAdd_range r rest (AddTag tag val metric)"
      by simp
    show ?thesis
      using Cons.IH [of "AddTag tag val metric"] Some
      unfolding eq by (auto simp add: AddTag_def split: if_splits)
  qed
qed

lemma asyncAdd_eq:
  assumes "range_order (allowTagsMap r) ks"
  shows "asyncAdd r ks metric =
       (case asyncAdd_range r ks metric of
          (metric', Some v) \<Rightarrow> (metric', Inl v)
        | (metric', None) \<Rightarrow> (metric', Inr [metric']))"
proof -
  from assms have "distinct ks" and "allowTagsMap r = set ks"
    by (simp_all add: range_order_def)
  then have "card (allowTagsMap r) = length ks"
    by (simp add: distinct_card)
  then have len: "0 < card (allowTagsMap r) \<longleftrightarrow> ks \<noteq> []"
    by simp
  show ?thesis
  proof (cases ks)
    case Nil
    with len show ?thesis by (simp add: asyncAdd_def)
  next
    case (Cons tag rest)
    with len have "0 < card (allowTagsMap r)" by simp
    then show ?thesis
      by (simp add: asyncAdd_def split: prod.splits option.splits)
  qed
qed

lemma asyncAdd_fst:
  "range_order (allowTagsMap r) ks \<Longrightarrow>
     fst (asyncAdd r ks metric) = fst (asyncAdd_range r ks metric)"
  by (simp add: asyncAdd_eq split: prod.splits option.splits)

lemma asyncAdd_snd:
  "range_order (allowTagsMap r) ks \<Longrightarrow>
     snd (asyncAdd r ks metric) =
       (case snd (asyncAdd_range r ks metric) of
          Some v \<Rightarrow> Inl v
        | None \<Rightarrow> Inr [fst (asyncAdd_range r ks metric)])"
  by (simp add: asyncAdd_eq split: prod.splits option.splits)

text \<open>
  C2 fails as stated: the hostname lookup fails with a timeout, and the enrichment call
  panics with the lookup's error instead of returning.
\<close>

theorem asyncAdd_lookup_failure_panics:
  "snd (asyncAdd
         (demo_processor {''hostname''}
            (demo_client\<lparr>Hostname := Inl (Error ''context deadline exceeded'')\<rparr>))
         [''hostname''] demo_metric)
     = Inl (PanicError (Error ''context deadline exceeded''))"
  by (simp add: asyncAdd_def demo_processor_def demo_client_def getTagFromGCE_def)

text \<open>
  C2, amended. When the client fails the lookup of an allowed tag, \<^verbatim>\<open>getTagFromGCE\<close>
  hands the failure to \<^verbatim>\<open>asyncAdd\<close> as an error value next to the empty string, and
  \<^verbatim>\<open>asyncAdd\<close> panics: the call returns no record. When every other allowed tag has a
  value, the panic carries the error of the failed lookup.
\<close>

theorem asyncAdd_failed_lookup:
  assumes client: "gceClient r = Some client"
    and order: "range_order (allowTagsMap r) ks"
    and tag: "tag \<in> allowTagsMap r"
    and fails: "tag = ''zone'' \<and> Zone client = Inl err \<or>
                tag = ''tags'' \<and> InstanceTags client = Inl err \<or>
                tag = ''name'' \<and> InstanceName client = Inl err \<or>
                tag = ''hostname'' \<and> Hostname client = Inl err"
  shows "getTagFromGCE r tag = Inr ([], Some err) \<and>
         (\<exists>p. snd (asyncAdd r ks metric) = Inl p) \<and>
         ((\<forall>t \<in> allowTagsMap r - {tag}. \<exists>val. getTagFromGCE r t = Inr (val, None)) \<longrightarrow>
            snd (asyncAdd r ks metric) = Inl (PanicError err))"
proof (intro conjI impI)
  from fails show err: "getTagFromGCE r tag = Inr ([], Some err)"
  proof (elim disjE conjE)
    assume "tag = ''zone''" and "Zone client = Inl err"
    with client show ?thesis by (simp add: getTagFromGCE_lookup_error)
  next
    assume "tag = ''tags''" and "InstanceTags client = Inl err"
    with client show ?thesis by (simp add: getTagFromGCE_lookup_error)
  next
    assume "tag = ''name''" and "InstanceName client = Inl err"
    with client show ?thesis by (simp add: getTagFromGCE_lookup_error)
  next
    assume "tag = ''hostname''" and "Hostname client = Inl err"
    with client show ?thesis by (simp add: getTagFromGCE_lookup_error)
  qed
  then have none: "lookup_value r tag = None"
    by (simp add: lookup_value_def)
  from order tag have mem: "tag \<in> set ks"
    by (simp add: range_order_def)
  with none have "\<exists>p. snd (asyncAdd_range r ks metric) = Some p"
    by (intro asyncAdd_range_failure) blast
  with order show "\<exists>p. snd (asyncAdd r ks metric) = Inl p"
    by (auto simp add: asyncAdd_snd)
  assume others: "\<forall>t \<in> allowTagsMap r - {tag}. \<exists>val. getTagFromGCE r t = Inr (val, None)"
  from mem obtain pre post where ks: "ks = pre @ tag # post"
    by (auto dest: split_list)
  with order have "set pre \<subseteq> allowTagsMap r - {tag}"
    by (auto simp add: range_order_def)
  with others have "\<forall>t \<in> set pre. lookup_value r t \<noteq> None"
    by (blast dest: lookup_value_ok)
  then have "snd (asyncAdd_range r (pre @ tag # post) metric) = Some (PanicError err)"
    using err by (rule asyncAdd_range_first_failure)
  with order ks show "snd (asyncAdd r ks metric) = Inl (PanicError err)"
    by (simp add: asyncAdd_snd)
qed

theorem asyncAdd_failed_lookup_witness:
  "getTagFromGCE
     (demo_processor {''name'', ''tags''} (demo_client\<lparr>InstanceTags := Inl (Error ''timeout'')\<rparr>))
     ''tags'' = Inr ([], Some (Error ''timeout'')) \<and>
   snd (asyncAdd
     (demo_processor {''name'', ''tags''} (demo_client\<lparr>InstanceTags := Inl (Error ''timeout'')\<rparr>))
     [''name'', ''tags''] demo_metric) = Inl (PanicError (Error ''timeout''))"
  using asyncAdd_failed_lookup
    [of "demo_processor {''name'', ''tags''} (demo_client\<lparr>InstanceTags := Inl (Error ''timeout'')\<rparr>)"
        "demo_client\<lparr>InstanceTags := Inl (Error ''timeout'')\<rparr>"
        "[''name'', ''tags'']" "''tags''" "Error ''timeout''" demo_metric]
  by (simp add: demo_processor_def demo_client_def range_order_def getTagFromGCE_def
        insert_commute)

text \<open>
  C3. The timeout does not reach the lookups: \<^verbatim>\<open>asyncAdd\<close> drops the context it makes
  from \<^verbatim>\<open>r.Timeout\<close>, the client's methods are called without it, and the result of every
  lookup and of the whole call is the same for every value of \<^verbatim>\<open>Timeout\<close>.
\<close>

theorem lookups_ignore_Timeout:
  "getTagFromGCE (r\<lparr>Timeout := t\<rparr>) tag = getTagFromGCE r tag \<and>
   asyncAdd (r\<lparr>Timeout := t\<rparr>) ks metric = asyncAdd r ks metric"
proof
  show lookup: "getTagFromGCE (r\<lparr>Timeout := t\<rparr>) tag = getTagFromGCE r tag" for tag
    by (simp add: getTagFromGCE_def)
  have "asyncAdd_range (r\<lparr>Timeout := t\<rparr>) ks metric = asyncAdd_range r ks metric" for metric
    by (induction ks arbitrary: metric)
       (simp_all add: lookup split: sum.splits prod.splits option.splits)
  then show "asyncAdd (r\<lparr>Timeout := t\<rparr>) ks metric = asyncAdd r ks metric"
    by (simp add: asyncAdd_def)
qed

text \<open>
  C8 fails as stated: the name lookup fails, and the enrichment call returns no record.
\<close>

theorem asyncAdd_no_record_on_panic:
  "snd (asyncAdd
         (demo_processor {''name''}
            (demo_client\<lparr>InstanceName := Inl (Error ''connection refused'')\<rparr>))
         [''name''] demo_metric)
     = Inl (PanicError (Error ''connection refused''))"
  by (simp add: asyncAdd_def demo_processor_def demo_client_def getTagFromGCE_def)

text \<open>
  C8, amended. When the lookup of every allowed tag returns a value, \<^verbatim>\<open>asyncAdd\<close> returns
  exactly one record: the input metric with every allowed tag set to its value. When the
  lookup of some allowed tag returns an error, the call panics and returns no record. A
  call that returns, returns one record.
\<close>

theorem asyncAdd_one_record:
  assumes order: "range_order (allowTagsMap r) ks"
  shows "((\<forall>tag \<in> allowTagsMap r. \<exists>val. getTagFromGCE r tag = Inr (val, None)) \<longrightarrow>
            snd (asyncAdd r ks metric) =
              Inr [metric\<lparr>metric_tags :=
                     (\<lambda>k. if k \<in> allowTagsMap r then lookup_value r k else metric_tags metric k)\<rparr>]) \<and>
         ((\<exists>tag \<in> allowTagsMap r. \<exists>val err. getTagFromGCE r tag = Inr (val, Some err)) \<longrightarrow>
            (\<exists>p. snd (asyncAdd r ks metric) = Inl p)) \<and>
         (\<forall>ms. snd (asyncAdd r ks metric) = Inr ms \<longrightarrow> length ms = 1)"
proof (intro conjI impI allI)
  from order have ks: "set ks = allowTagsMap r"
    by (simp add: range_order_def)
  {
    assume "\<forall>tag \<in> allowTagsMap r. \<exists>val. getTagFromGCE r tag = Inr (val, None)"
    with ks have "\<forall>tag \<in> set ks. lookup_value r tag \<noteq> None"
      by (blast dest: lookup_value_ok)
    then have "asyncAdd_range r ks metric =
       (metric\<lparr>metric_tags := (\<lambda>k. if k \<in> set ks then lookup_value r k else metric_tags metric k)\<rparr>,
        None)"
      by (rule asyncAdd_range_success)
    with order ks show "snd (asyncAdd r ks metric) =
              Inr [metric\<lparr>metric_tags :=
                     (\<lambda>k. if k \<in> allowTagsMap r then lookup_value r k else metric_tags metric k)\<rparr>]"
      by (simp add: asyncAdd_snd)
  }
  {
    assume "\<exists>tag \<in> allowTagsMap r. \<exists>val err. getTagFromGCE r tag = Inr (val, Some err)"
    with ks have "\<exists>tag \<in> set ks. lookup_value r tag = None"
      by (blast dest: lookup_value_err)
    then have "\<exists>p. snd (asyncAdd_range r ks metric) = Some p"
      by (rule asyncAdd_range_failure)
    with order show "\<exists>p. snd (asyncAdd r ks metric) = Inl p"
      by (auto simp add: asyncAdd_snd)
  }
  {
    fix ms
    assume "snd (asyncAdd r ks metric) = Inr ms"
    with order show "length ms = 1"
      by (auto simp add: asyncAdd_snd split: option.splits)
  }
qed

theorem asyncAdd_one_record_witness:
  "snd (asyncAdd (demo_processor {''name'', ''zone''} demo_client) [''zone'', ''name''] demo_metric) =
     Inr [demo_metric\<lparr>metric_tags :=
            [''host'' \<mapsto> ''a'', ''name'' \<mapsto> ''vm-1'', ''zone'' \<mapsto> ''us-central1-a'']\<rparr>] \<and>
   (\<exists>p. snd (asyncAdd
              (demo_processor {''name'', ''zone''} (demo_client\<lparr>Zone := Inl (Error ''timeout'')\<rparr>))
              [''zone'', ''name''] demo_metric) = Inl p)"
proof
  have "range_order (allowTagsMap (demo_processor {''name'', ''zone''} demo_client)) [''zone'', ''name'']"
    by (auto simp add: range_order_def demo_processor_def)
  from asyncAdd_one_record [OF this, of demo_metric]
  show "snd (asyncAdd (demo_processor {''name'', ''zone''} demo_client) [''zone'', ''name''] demo_metric) =
     Inr [demo_metric\<lparr>metric_tags :=
            [''host'' \<mapsto> ''a'', ''name'' \<mapsto> ''vm-1'', ''zone'' \<mapsto> ''us-central1-a'']\<rparr>]"
    by (auto simp add: demo_processor_def demo_client_def demo_metric_def getTagFromGCE_def
          index_slice_def lookup_value_def fun_eq_iff)
next
  have "range_order (allowTagsMap (demo_processor {''name'', ''zone''}
          (demo_client\<lparr>Zone := Inl (Error ''timeout'')\<rparr>))) [''zone'', ''name'']"
    by (auto simp add: range_order_def demo_processor_def)
  from asyncAdd_one_record [OF this, of demo_metric]
  show "\<exists>p. snd (asyncAdd
              (demo_processor {''name'', ''zone''} (demo_client\<lparr>Zone := Inl (Error ''timeout'')\<rparr>))
              [''zone'', ''name''] demo_metric) = Inl p"
    by (simp add: demo_processor_def demo_client_def getTagFromGCE_def)
qed

text \<open>
  C10. For every order in which the loop visits the allow-set, the metric after the call has
  the name, the fields and the time of the input; a tag outside the allow-set is as it was;
  a tag that differs from the input's is an allowed tag, set to the value its lookup
  returned; and a call that returns, returns that metric alone. With an empty allow-set the
  call returns the input metric unchanged whatever the client is, a nil client included: it
  looks nothing up.
\<close>

theorem asyncAdd_frame:
  "(range_order (allowTagsMap r) ks \<longrightarrow>
      metric_name (fst (asyncAdd r ks metric)) = metric_name metric \<and>
      metric_fields (fst (asyncAdd r ks metric)) = metric_fields metric \<and>
      metric_time (fst (asyncAdd r ks metric)) = metric_time metric \<and>
      (\<forall>k. k \<notin> allowTagsMap r \<longrightarrow>
           metric_tags (fst (asyncAdd r ks metric)) k = metric_tags metric k) \<and>
      (\<forall>k. metric_tags (fst (asyncAdd r ks metric)) k \<noteq> metric_tags metric k \<longrightarrow>
           (\<exists>val. getTagFromGCE r k = Inr (val, None) \<and>
                  metric_tags (fst (asyncAdd r ks metric)) k = Some val)) \<and>
      (\<forall>ms. snd (asyncAdd r ks metric) = Inr ms \<longrightarrow> ms = [fst (asyncAdd r ks metric)])) \<and>
   (allowTagsMap r = {} \<longrightarrow>
      (\<forall>client. asyncAdd (r\<lparr>gceClient := client\<rparr>) ks metric = (metric, Inr [metric])))"
proof (intro conjI impI allI)
  assume order: "range_order (allowTagsMap r) ks"
  then have ks: "set ks = allowTagsMap r"
    by (simp add: range_order_def)
  from order show "metric_name (fst (asyncAdd r ks metric)) = metric_name metric"
    and "metric_fields (fst (asyncAdd r ks metric)) = metric_fields metric"
    and "metric_time (fst (asyncAdd r ks metric)) = metric_time metric"
    by (simp_all add: asyncAdd_fst asyncAdd_range_frame)
  from order show "ms = [fst (asyncAdd r ks metric)]"
    if "snd (asyncAdd r ks metric) = Inr ms" for ms
    using that by (simp add: asyncAdd_snd asyncAdd_fst split: option.splits)
  fix k
  from asyncAdd_range_tags [of r ks metric k] order ks
  show "metric_tags (fst (asyncAdd r ks metric)) k = metric_tags metric k"
    if "k \<notin> allowTagsMap r"
    using that by (auto simp add: asyncAdd_fst)
  from asyncAdd_range_tags [of r ks metric k] order
  show "\<exists>val. getTagFromGCE r k = Inr (val, None) \<and>
                  metric_tags (fst (asyncAdd r ks metric)) k = Some val"
    if "metric_tags (fst (asyncAdd r ks metric)) k \<noteq> metric_tags metric k"
    using that by (auto simp add: asyncAdd_fst lookup_value_Some)
next
  fix client
  assume "allowTagsMap r = {}"
  then show "asyncAdd (r\<lparr>gceClient := client\<rparr>) ks metric = (metric, Inr [metric])"
    by (simp add: asyncAdd_def)
qed

theorem asyncAdd_frame_witness:
  "metric_tags (fst (asyncAdd (demo_processor {''name''} demo_client) [''name''] demo_metric))
     ''host'' = Some ''a'' \<and>
   metric_tags (fst (asyncAdd (demo_processor {''name''} demo_client) [''name''] demo_metric))
     ''name'' = Some ''vm-1'' \<and>
   asyncAdd (demo_processor {} demo_client\<lparr>gceClient := None\<rparr>) [] demo_metric
     = (demo_metric, Inr [demo_metric])"
  using
    asyncAdd_frame [of "demo_processor {''name''} demo_client" "[''name'']" demo_metric]
    asyncAdd_frame [of "demo_processor {} demo_client" "[]" demo_metric]
  by (simp add: demo_processor_def demo_client_def demo_metric_def range_order_def
        asyncAdd_def getTagFromGCE_def AddTag_def)

subsection \<open>The ordered dispatcher\<close>

lemma ordered_invI:
  assumes "mode d = OrderedMode"
    and "nextSeq d = length items"
    and "nextToRelease d \<le> nextSeq d"
    and "sink d = acc @ concat (map enrichFn (take (nextToRelease d) items))"
    and "\<And>job. job \<in> set (pending d) \<Longrightarrow> fst job < length items \<and> snd job = items ! fst job"
    and "\<And>job. job \<in> set (inflight d) \<Longrightarrow> fst job < length items \<and> snd job = items ! fst job"
    and "\<And>entry. entry \<in> set (buffer d) \<Longrightarrow>
           fst entry < length items \<and> snd entry = enrichFn (items ! fst entry)"
    and "\<And>s. nextToRelease d \<le> s \<Longrightarrow> s < nextSeq d \<Longrightarrow>
           s \<in> fst ` set (pending d) \<union> fst ` set (inflight d) \<union> fst ` set (buffer d)"
  shows "ordered_inv enrichFn acc items d"
  unfolding ordered_inv_def using assms by blast

lemma ordered_invD:
  assumes "ordered_inv enrichFn acc items d"
  shows "mode d = OrderedMode"
    and "nextSeq d = length items"
    and "nextToRelease d \<le> nextSeq d"
    and "sink d = acc @ concat (map enrichFn (take (nextToRelease d) items))"
    and "\<And>job. job \<in> set (pending d) \<Longrightarrow> fst job < length items \<and> snd job = items ! fst job"
    and "\<And>job. job \<in> set (inflight d) \<Longrightarrow> fst job < length items \<and> snd job = items ! fst job"
    and "\<And>entry. entry \<in> set (buffer d) \<Longrightarrow>
           fst entry < length items \<and> snd entry = enrichFn (items ! fst entry)"
    and "\<And>s. nextToRelease d \<le> s \<Longrightarrow> s < nextSeq d \<Longrightarrow>
           s \<in> fst ` set (pending d) \<union> fst ` set (inflight d) \<union> fst ` set (buffer d)"
  using assms unfolding ordered_inv_def by blast+

lemma ordered_inv_NewOrdered: "ordered_inv enrichFn acc [] (NewOrdered acc q w)"
  by (rule ordered_invI) (simp_all add: NewOrdered_def)

lemma ordered_inv_release:
  "ordered_inv enrichFn acc items d \<Longrightarrow> ordered_inv enrichFn acc items (release d)"
proof (induction d rule: release.induct)
  case (1 d)
  note inv = ordered_invD [OF "1.prems"]
  show ?case
  proof (cases "map_of (buffer d) (nextToRelease d)")
    case None
    with "1.prems" show ?thesis
      by (simp add: release.simps [of d])
  next
    case (Some out)
    let ?n = "nextToRelease d"
    let ?d' = "d\<lparr>sink := sink d @ out,
                  buffer := filter (\<lambda>entry. fst entry \<noteq> ?n) (buffer d),
                  nextToRelease := Suc ?n\<rparr>"
    from Some have mem: "(?n, out) \<in> set (buffer d)"
      by (rule map_of_SomeD)
    from inv(7) [OF mem] have n: "?n < length items" and out: "out = enrichFn (items ! ?n)"
      by simp_all
    have "ordered_inv enrichFn acc items ?d'"
    proof (rule ordered_invI)
      show "mode ?d' = OrderedMode"
        using inv(1) by simp
      show "nextSeq ?d' = length items"
        using inv(2) by simp
      show "nextToRelease ?d' \<le> nextSeq ?d'"
        using inv(2) n by simp
      show "sink ?d' = acc @ concat (map enrichFn (take (nextToRelease ?d') items))"
        using inv(4) n out by (simp add: take_Suc_conv_app_nth)
      show "fst job < length items \<and> snd job = items ! fst job"
        if "job \<in> set (pending ?d')" for job
        using that inv(5) [of job] by simp
      show "fst job < length items \<and> snd job = items ! fst job"
        if "job \<in> set (inflight ?d')" for job
        using that inv(6) [of job] by simp
      show "fst entry < length items \<and> snd entry = enrichFn (items ! fst entry)"
        if "entry \<in> set (buffer ?d')" for entry
        using that inv(7) [of entry] by simp
      show "s \<in> fst ` set (pending ?d') \<union> fst ` set (inflight ?d') \<union> fst ` set (buffer ?d')"
        if "nextToRelease ?d' \<le> s" and "s < nextSeq ?d'" for s
      proof -
        from that have ne: "s \<noteq> ?n"
          by simp
        from that have "?n \<le> s" and "s < nextSeq d"
          by simp_all
        then have "s \<in> fst ` set (pending d) \<union> fst ` set (inflight d) \<union> fst ` set (buffer d)"
          by (rule inv(8))
        with ne show ?thesis
          by (auto simp add: image_iff)
      qed
    qed
    then have "ordered_inv enrichFn acc items (release ?d')"
      using Some by (rule "1.IH" [rotated])
    with Some show ?thesis
      by (simp add: release.simps [of d])
  qed
qed

lemma ordered_inv_Enqueue:
  assumes "ordered_inv enrichFn acc items d" and "Enqueue item d = Some d'"
  shows "ordered_inv enrichFn acc (items @ [item]) d'"
proof -
  note inv = ordered_invD [OF assms(1)]
  from assms(2) have d': "d' = d\<lparr>pending := pending d @ [(nextSeq d, item)],
                                  nextSeq := Suc (nextSeq d)\<rparr>"
    by (simp add: Enqueue_def split: if_splits)
  show ?thesis
    unfolding d'
  proof (rule ordered_invI)
    let ?d' = "d\<lparr>pending := pending d @ [(nextSeq d, item)], nextSeq := Suc (nextSeq d)\<rparr>"
    show "mode ?d' = OrderedMode"
      using inv(1) by simp
    show "nextSeq ?d' = length (items @ [item])"
      using inv(2) by simp
    show "nextToRelease ?d' \<le> nextSeq ?d'"
      using inv(3) by simp
    show "sink ?d' = acc @ concat (map enrichFn (take (nextToRelease ?d') (items @ [item])))"
      using inv(2,3,4) by simp
    show "fst job < length (items @ [item]) \<and> snd job = (items @ [item]) ! fst job"
      if "job \<in> set (pending ?d')" for job
    proof (cases "job \<in> set (pending d)")
      case True
      from inv(5) [OF True] show ?thesis
        by (simp add: nth_append)
    next
      case False
      with that have "job = (nextSeq d, item)"
        by simp
      then show ?thesis
        using inv(2) by simp
    qed
    show "fst job < length (items @ [item]) \<and> snd job = (items @ [item]) ! fst job"
      if "job \<in> set (inflight ?d')" for job
    proof -
      from that have "job \<in> set (inflight d)" by simp
      from inv(6) [OF this] show ?thesis
        by (simp add: nth_append)
    qed
    show "fst entry < length (items @ [item]) \<and>
          snd entry = enrichFn ((items @ [item]) ! fst entry)"
      if "entry \<in> set (buffer ?d')" for entry
    proof -
      from that have "entry \<in> set (buffer d)" by simp
      from inv(7) [OF this] show ?thesis
        by (simp add: nth_append)
    qed
    show "s \<in> fst ` set (pending ?d') \<union> fst ` set (inflight ?d') \<union> fst ` set (buffer ?d')"
      if "nextToRelease ?d' \<le> s" and "s < nextSeq ?d'" for s
    proof (cases "s = nextSeq d")
      case True
      then show ?thesis by simp
    next
      case False
      with that have "nextToRelease d \<le> s" and "s < nextSeq d"
        by simp_all
      then have "s \<in> fst ` set (pending d) \<union> fst ` set (inflight d) \<union> fst ` set (buffer d)"
        by (rule inv(8))
      then show ?thesis
        by auto
    qed
  qed
qed

lemma ordered_inv_dispatch:
  assumes "ordered_inv enrichFn acc items d" and "dispatch d = Some d'"
  shows "ordered_inv enrichFn acc items d'"
proof -
  note inv = ordered_invD [OF assms(1)]
  from assms(2) obtain job jobs where p: "pending d = job # jobs"
    and d': "d' = d\<lparr>pending := jobs, inflight := inflight d @ [job]\<rparr>"
    by (auto simp add: dispatch_def split: list.splits if_splits)
  show ?thesis
    unfolding d'
  proof (rule ordered_invI)
    let ?d' = "d\<lparr>pending := jobs, inflight := inflight d @ [job]\<rparr>"
    show "mode ?d' = OrderedMode"
      using inv(1) by simp
    show "nextSeq ?d' = length items"
      using inv(2) by simp
    show "nextToRelease ?d' \<le> nextSeq ?d'"
      using inv(3) by simp
    show "sink ?d' = acc @ concat (map enrichFn (take (nextToRelease ?d') items))"
      using inv(4) by simp
    show "fst j < length items \<and> snd j = items ! fst j" if "j \<in> set (pending ?d')" for j
      using that inv(5) [of j] p by simp
    show "fst j < length items \<and> snd j = items ! fst j" if "j \<in> set (inflight ?d')" for j
      using that inv(5) [of j] inv(6) [of j] p by auto
    show "fst entry < length items \<and> snd entry = enrichFn (items ! fst entry)"
      if "entry \<in> set (buffer ?d')" for entry
      using that inv(7) [of entry] by simp
    show "s \<in> fst ` set (pending ?d') \<union> fst ` set (inflight ?d') \<union> fst ` set (buffer ?d')"
      if "nextToRelease ?d' \<le> s" and "s < nextSeq ?d'" for s
    proof -
      from that have "nextToRelease d \<le> s" and "s < nextSeq d"
        by simp_all
      then have "s \<in> fst ` set (pending d) \<union> fst ` set (inflight d) \<union> fst ` set (buffer d)"
        by (rule inv(8))
      then show ?thesis
        unfolding p by auto
    qed
  qed
qed

lemma ordered_inv_complete:
  assumes "ordered_inv enrichFn acc items d" and c: "complete enrichFn s d = Some d'"
  shows "ordered_inv enrichFn acc items d'"
proof -
  note inv = ordered_invD [OF assms(1)]
  from c obtain item where item: "map_of (inflight d) s = Some item"
    by (auto simp add: complete_def split: option.splits)
  let ?d1 = "d\<lparr>inflight := filter (\<lambda>job. fst job \<noteq> s) (inflight d),
                buffer := buffer d @ [(s, enrichFn item)]\<rparr>"
  from c item inv(1) have d': "d' = release ?d1"
    by (simp add: complete_def Let_def)
  from item have mem: "(s, item) \<in> set (inflight d)"
    by (rule map_of_SomeD)
  from inv(6) [OF mem] have s: "s < length items" and it: "item = items ! s"
    by simp_all
  have "ordered_inv enrichFn acc items ?d1"
  proof (rule ordered_invI)
    show "mode ?d1 = OrderedMode"
      using inv(1) by simp
    show "nextSeq ?d1 = length items"
      using inv(2) by simp
    show "nextToRelease ?d1 \<le> nextSeq ?d1"
      using inv(3) by simp
    show "sink ?d1 = acc @ concat (map enrichFn (take (nextToRelease ?d1) items))"
      using inv(4) by simp
    show "fst j < length items \<and> snd j = items ! fst j" if "j \<in> set (pending ?d1)" for j
      using that inv(5) [of j] by simp
    show "fst j < length items \<and> snd j = items ! fst j" if "j \<in> set (inflight ?d1)" for j
      using that inv(6) [of j] by simp
    show "fst entry < length items \<and> snd entry = enrichFn (items ! fst entry)"
      if "entry \<in> set (buffer ?d1)" for entry
    proof (cases "entry \<in> set (buffer d)")
      case True
      then show ?thesis by (rule inv(7))
    next
      case False
      with that have "entry = (s, enrichFn item)" by simp
      with s it show ?thesis by simp
    qed
    show "t \<in> fst ` set (pending ?d1) \<union> fst ` set (inflight ?d1) \<union> fst ` set (buffer ?d1)"
      if "nextToRelease ?d1 \<le> t" and "t < nextSeq ?d1" for t
    proof (cases "t = s")
      case True
      then show ?thesis by simp
    next
      case False
      from that have "nextToRelease d \<le> t" and "t < nextSeq d"
        by simp_all
      then have "t \<in> fst ` set (pending d) \<union> fst ` set (inflight d) \<union> fst ` set (buffer d)"
        by (rule inv(8))
      with False show ?thesis
        by (auto simp add: image_iff)
    qed
  qed
  then show ?thesis
    unfolding d' by (rule ordered_inv_release)
qed

lemma ordered_inv_Stop:
  assumes "ordered_inv enrichFn acc items d"
  shows "ordered_inv enrichFn acc items (parallel_Stop d)"
  using assms unfolding ordered_inv_def parallel_Stop_def by simp

lemma ordered_inv_step:
  assumes "ordered_inv enrichFn acc items d" and "step enrichFn e d = Some d'"
  shows "ordered_inv enrichFn acc (items @ enqueued [e]) d'"
proof (cases e)
  case (EvEnqueue item)
  with assms show ?thesis by (simp add: ordered_inv_Enqueue)
next
  case EvDispatch
  with assms show ?thesis by (simp add: ordered_inv_dispatch)
next
  case (EvComplete s)
  with assms show ?thesis by (simp add: ordered_inv_complete)
next
  case EvStop
  with assms show ?thesis by (auto simp add: ordered_inv_Stop)
qed

lemma enqueued_Cons: "enqueued (e # es) = enqueued [e] @ enqueued es"
  by (cases e) simp_all

lemma ordered_inv_run:
  "ordered_inv enrichFn acc items d \<Longrightarrow> run enrichFn evs d = Some d' \<Longrightarrow>
     ordered_inv enrichFn acc (items @ enqueued evs) d'"
proof (induction evs arbitrary: items d)
  case Nil
  then show ?case by simp
next
  case (Cons e es)
  from Cons.prems(2) obtain d1 where d1: "step enrichFn e d = Some d1"
    and rest: "run enrichFn es d1 = Some d'"
    by (auto split: option.splits)
  from Cons.prems(1) d1 have "ordered_inv enrichFn acc (items @ enqueued [e]) d1"
    by (rule ordered_inv_step)
  then have "ordered_inv enrichFn acc ((items @ enqueued [e]) @ enqueued es) d'"
    using rest by (rule Cons.IH)
  then show ?case
    by (simp add: enqueued_Cons [of e es])
qed

lemma ordered_inv_drained:
  assumes "ordered_inv enrichFn acc items d" and "drained d"
  shows "nextToRelease d = length items"
proof (rule ccontr)
  assume "nextToRelease d \<noteq> length items"
  with ordered_invD(2,3) [OF assms(1)]
  have "nextToRelease d \<le> nextToRelease d" and "nextToRelease d < nextSeq d"
    by simp_all
  then have "nextToRelease d \<in>
      fst ` set (pending d) \<union> fst ` set (inflight d) \<union> fst ` set (buffer d)"
    by (rule ordered_invD(8) [OF assms(1)])
  with assms(2) show False
    by (simp add: drained_def)
qed

text \<open>
  C1. \<^verbatim>\<open>Start\<close> in ordered mode sets an ordered dispatcher. After every schedule that
  this dispatcher can run (items enqueued, taken by workers and completed in any order),
  the sink holds what the accumulator held before, followed by the results of the first
  \<^verbatim>\<open>nextToRelease\<close> enqueued items in the order they were enqueued, for every enrichment
  function. Once the dispatcher has drained, these are the results of all enqueued items.
\<close>

theorem ordered_sink_in_enqueue_order:
  assumes "Ordered r"
    and "parallel (snd (Start client acc r)) = Some d0"
    and "run enrichFn evs d0 = Some d"
  shows "nextToRelease d \<le> length (enqueued evs) \<and>
         sink d = acc @ concat (map enrichFn (take (nextToRelease d) (enqueued evs))) \<and>
         (drained d \<longrightarrow> sink d = acc @ concat (map enrichFn (enqueued evs)))"
proof -
  from assms(1,2) have "d0 = NewOrdered acc DefaultMaxOrderedQueueSize (MaxParallelCalls r)"
    by (simp add: Start_def Let_def)
  then have "ordered_inv enrichFn acc [] d0"
    by (simp add: ordered_inv_NewOrdered)
  then have inv: "ordered_inv enrichFn acc ([] @ enqueued evs) d"
    using assms(3) by (rule ordered_inv_run)
  then have inv': "ordered_inv enrichFn acc (enqueued evs) d"
    by simp
  note facts = ordered_invD [OF inv']
  from facts(2,3) have "nextToRelease d \<le> length (enqueued evs)"
    by simp
  moreover note facts(4)
  moreover have "sink d = acc @ concat (map enrichFn (enqueued evs))" if "drained d"
    using facts(4) ordered_inv_drained [OF inv' that] by simp
  ultimately show ?thesis by blast
qed

lemma demo_run:
  "run demo_enrich demo_schedule (NewOrdered [] DefaultMaxOrderedQueueSize 10) =
     Some \<lparr>mode = OrderedMode, concurrencyLimit = 10, maxQueueSize = 10000, nextSeq = 3,
           pending = [], inflight = [], buffer = [], nextToRelease = 3,
           sink = map (AddTag ''name'' ''vm-1'') demo_items, stopped = True\<rparr>"
  by (simp add: demo_schedule_def demo_items_def demo_enrich_def NewOrdered_def
        DefaultMaxOrderedQueueSize_def Enqueue_def dispatch_def complete_def release.simps
        parallel_Stop_def Let_def)

theorem ordered_sink_in_enqueue_order_witness:
  "Ordered (newGceProcessor\<lparr>Ordered := True\<rparr> :: unit GceProcessor) \<and>
   parallel (snd (Start demo_client [] (newGceProcessor\<lparr>Ordered := True\<rparr>))) =
     Some (NewOrdered ([] :: unit Metric list) DefaultMaxOrderedQueueSize 10) \<and>
   run demo_enrich demo_schedule (NewOrdered [] DefaultMaxOrderedQueueSize 10) =
     Some \<lparr>mode = OrderedMode, concurrencyLimit = 10, maxQueueSize = 10000, nextSeq = 3,
           pending = [], inflight = [], buffer = [], nextToRelease = 3,
           sink = map (AddTag ''name'' ''vm-1'') demo_items, stopped = True\<rparr> \<and>
   map (AddTag ''name'' ''vm-1'') demo_items = [] @ concat (map demo_enrich (enqueued demo_schedule))"
proof -
  have ordered: "Ordered (newGceProcessor\<lparr>Ordered := True\<rparr> :: unit GceProcessor)"
    by simp
  have start: "parallel (snd (Start demo_client [] (newGceProcessor\<lparr>Ordered := True\<rparr>))) =
     Some (NewOrdered ([] :: unit Metric list) DefaultMaxOrderedQueueSize 10)"
    by (simp add: Start_def newGceProcessor_def DefaultMaxParallelCalls_def)
  note run = demo_run
  let ?d = "\<lparr>mode = OrderedMode, concurrencyLimit = 10, maxQueueSize = 10000, nextSeq = 3,
           pending = [], inflight = [], buffer = [], nextToRelease = 3,
           sink = map (AddTag ''name'' ''vm-1'') demo_items, stopped = True\<rparr>"
  from ordered_sink_in_enqueue_order [OF ordered start run]
  have "drained ?d \<longrightarrow> sink ?d = [] @ concat (map demo_enrich (enqueued demo_schedule))"
    by blast
  moreover have "drained ?d"
    by (simp add: drained_def)
  ultimately have "sink ?d = [] @ concat (map demo_enrich (enqueued demo_schedule))"
    by (rule mp)
  then have "map (AddTag ''name'' ''vm-1'') demo_items =
          [] @ concat (map demo_enrich (enqueued demo_schedule))"
    by (simp only: Parallel.select_convs)
  with ordered start run show ?thesis
    by blast
qed

end
